theory Spec2Isabelle
  imports Main "HOL-Library.Word" "HOL-Library.Multiset" "HOL-Library.List_Lexorder"
    "HOL-Library.Signed_Division"
begin

section \<open>TTRuntimeInfoTracker.h: name-ordered lists of the well-known entities\<close>

text \<open>
  The header \<^verbatim>\<open>lib/Runtime/Debug/TTRuntimeInfoTracker.h\<close> defines two template
  functions in full, \<^verbatim>\<open>SortDictIntoListOnNames\<close> and
  \<^verbatim>\<open>LookupPositionInDictNameList\<close>, and declares the classes
  \<^verbatim>\<open>ThreadContextTTD\<close>, \<^verbatim>\<open>ScriptContextTTD\<close> and
  \<^verbatim>\<open>RuntimeContextInfo\<close>, whose member functions are defined elsewhere.
\<close>

subsection \<open>Strings, errors and containers\<close>

text \<open>
  A \<^verbatim>\<open>char16\<close> is a 16-bit code unit. A \<^verbatim>\<open>TTAutoString\<close> is modelled by the
  code units of its buffer; \<^verbatim>\<open>GetStrValue\<close> hands out that buffer followed by the
  terminating NUL, so a position past the end of the list reads as 0.
\<close>

type_synonym char16 = "16 word"
type_synonym TTAutoString = "char16 list"

text \<open>
  \<^verbatim>\<open>wcscmp\<close> walks both strings until the code units differ or the NUL is reached.
  The callers only look at the sign of the result, so the model returns -1, 0 or 1.
  Code units compare as unsigned 16-bit values.
\<close>

fun wcscmp :: "TTAutoString \<Rightarrow> TTAutoString \<Rightarrow> int" where
  "wcscmp [] [] = 0"
| "wcscmp [] (y # ys) = (if y = 0 then 0 else - 1)"
| "wcscmp (x # xs) [] = (if x = 0 then 0 else 1)"
| "wcscmp (x # xs) (y # ys) =
     (if x < y then - 1 else if y < x then 1 else if x = 0 then 0 else wcscmp xs ys)"

text \<open>
  Modelled from the spec: the macros \<^verbatim>\<open>TTDAssert\<close> and \<^verbatim>\<open>AssertMsg\<close> and the
  accessors of \<^verbatim>\<open>JsUtil::List\<close> and \<^verbatim>\<open>JsUtil::BaseDictionary\<close>, which this
  header uses and does not define. Failures are values. A failed \<^verbatim>\<open>TTDAssert\<close> is
  fatal in every build ("fails fatally if absent"); \<^verbatim>\<open>AssertMsg\<close> is a debug
  assertion, checked when the build flavour says so. An index outside the list and a
  key outside the dictionary are errors of their own, and so is an \<^verbatim>\<open>int32\<close> sum
  that leaves the 32-bit range. The last three errors belong to the member functions
  that the header only declares: the capacity error and the double registration of a
  context, and the lookup of an unknown path.
\<close>

datatype error =
    TTDAssertFailed string
  | AssertFailed string
  | KeyNotFound
  | IndexOutOfRange
  | SignedOverflow
  | CapacityExceeded
  | DoubleRegistration
  | NotFound

text \<open>
  A \<^verbatim>\<open>BaseDictionary<T, TTAutoString*>\<close> is an association list in the order in
  which \<^verbatim>\<open>Map\<close> visits the entries; \<^verbatim>\<open>Item\<close> returns the value stored for a key.
\<close>

type_synonym 'k NameDict = "('k \<times> TTAutoString) list"

definition dict_Item :: "('k \<times> 'v) list \<Rightarrow> 'k \<Rightarrow> error + 'v" where
  "dict_Item d k = (case map_of d k of None \<Rightarrow> Inl KeyNotFound | Some v \<Rightarrow> Inr v)"

text \<open>\<^verbatim>\<open>objToNameMap.Map([&](T key, TTAutoString* value) { sortedObjList.Add(key); })\<close>\<close>

definition dict_Map_Add :: "('k \<times> 'v) list \<Rightarrow> 'k list \<Rightarrow> 'k list" where
  "dict_Map_Add d sortedObjList = foldl (\<lambda>l kv. l @ [fst kv]) sortedObjList d"

text \<open>
  \<^verbatim>\<open>List::Item(index)\<close> and \<^verbatim>\<open>List::SetItem(index, item)\<close> on an index inside
  the list. What they do outside of it is not in this header; the model reports an
  error there.
\<close>

definition list_Item :: "'a list \<Rightarrow> int \<Rightarrow> error + 'a" where
  "list_Item xs i =
     (if 0 \<le> i \<and> i < int (length xs) then Inr (xs ! nat i) else Inl IndexOutOfRange)"

definition list_SetItem :: "'a list \<Rightarrow> int \<Rightarrow> 'a \<Rightarrow> error + 'a list" where
  "list_SetItem xs i v =
     (if 0 \<le> i \<and> i < int (length xs) then Inr (xs[nat i := v]) else Inl IndexOutOfRange)"

text \<open>An \<^verbatim>\<open>int32\<close> addition; a sum outside the 32-bit range is undefined behaviour.\<close>

definition int32_add :: "int \<Rightarrow> int \<Rightarrow> error + int" where
  "int32_add a b =
     (let s = a + b in if - (2 ^ 31) \<le> s \<and> s < 2 ^ 31 then Inr s else Inl SignedOverflow)"

subsection \<open>SortDictIntoListOnNames\<close>

text \<open>\<^verbatim>\<open>const int32 gaps[8] = { 701, 301, 132, 57, 23, 10, 4, 1 };\<close>\<close>

definition gaps :: "nat list" where
  "gaps = [701, 301, 132, 57, 23, 10, 4, 1]"

text \<open>
  The innermost loop,
  \<^verbatim>\<open>for(j = i; j >= gap && wcscmp(name(list[j - gap]), tempStr) > 0; j -= gap)\<close>,
  which moves the element \<open>gap\<close> places before \<open>j\<close> up to \<open>j\<close>. The indices \<open>i\<close>, \<open>j\<close>
  and \<open>gap\<close> are \<^verbatim>\<open>int32\<close> values that never go below 0 (\<open>j - gap\<close> is computed only
  when \<open>j >= gap\<close>) and never exceed the list's count, itself an \<^verbatim>\<open>int32\<close>, so no
  step of the sort can overflow and the indices are natural numbers here.
  Every gap of the table is positive, which the guard \<open>0 < gap\<close> records; it is what
  makes \<open>j\<close> decrease.
\<close>

function shiftLoop ::
  "'k NameDict \<Rightarrow> nat \<Rightarrow> TTAutoString \<Rightarrow> 'k list \<Rightarrow> nat \<Rightarrow> error + ('k list \<times> nat)" where
  "shiftLoop d gap tempStr xs j =
     (if 0 < gap \<and> gap \<le> j then
        (case list_Item xs (int (j - gap)) of
           Inl e \<Rightarrow> Inl e
         | Inr shiftElem \<Rightarrow>
             (case dict_Item d shiftElem of
                Inl e \<Rightarrow> Inl e
              | Inr prevStr \<Rightarrow>
                  if 0 < wcscmp prevStr tempStr then
                    (case list_SetItem xs (int j) shiftElem of
                       Inl e \<Rightarrow> Inl e
                     | Inr xs' \<Rightarrow> shiftLoop d gap tempStr xs' (j - gap))
                  else Inr (xs, j)))
      else Inr (xs, j))"
  by pat_completeness auto
termination
  by (relation "measure (\<lambda>(d, gap, tempStr, xs, j). j)") auto

text \<open>The loop \<^verbatim>\<open>for(int32 i = gap; i < llen; i++)\<close>: one pass for one gap.\<close>

function passLoop ::
  "'k NameDict \<Rightarrow> nat \<Rightarrow> nat \<Rightarrow> 'k list \<Rightarrow> nat \<Rightarrow> error + 'k list" where
  "passLoop d gap llen xs i =
     (if i < llen then
        (case list_Item xs (int i) of
           Inl e \<Rightarrow> Inl e
         | Inr temp \<Rightarrow>
             (case dict_Item d temp of
                Inl e \<Rightarrow> Inl e
              | Inr tempStr \<Rightarrow>
                  (case shiftLoop d gap tempStr xs i of
                     Inl e \<Rightarrow> Inl e
                   | Inr (ys, j) \<Rightarrow>
                       (case list_SetItem ys (int j) temp of
                          Inl e \<Rightarrow> Inl e
                        | Inr zs \<Rightarrow> passLoop d gap llen zs (i + 1)))))
      else Inr xs)"
  by pat_completeness auto
termination
  by (relation "measure (\<lambda>(d, gap, llen, xs, i). llen - i)") auto

text \<open>The loop \<^verbatim>\<open>for(uint32 gapi = 0; gapi < 8; ++gapi)\<close> over the table of gaps.\<close>

function gapLoop :: "'k NameDict \<Rightarrow> nat \<Rightarrow> 'k list \<Rightarrow> nat \<Rightarrow> error + 'k list" where
  "gapLoop d llen xs gapi =
     (if gapi < 8 then
        (case passLoop d (gaps ! gapi) llen xs (gaps ! gapi) of
           Inl e \<Rightarrow> Inl e
         | Inr ys \<Rightarrow> gapLoop d llen ys (gapi + 1))
      else Inr xs)"
  by pat_completeness auto
termination
  by (relation "measure (\<lambda>(d, llen, xs, gapi). 8 - gapi)") auto

text \<open>
  The function itself. The parameter \<^verbatim>\<open>nullString\<close> is not used by the body and is
  left out. The list is an in-out parameter: the result is its final content.
\<close>

definition SortDictIntoListOnNames :: "'k NameDict \<Rightarrow> 'k list \<Rightarrow> error + 'k list" where
  "SortDictIntoListOnNames objToNameMap sortedObjList =
     (if length sortedObjList \<noteq> 0 then Inl (TTDAssertFailed ''This should be empty.'')
      else
        let xs = dict_Map_Add objToNameMap sortedObjList;
            llen = length xs
        in gapLoop objToNameMap llen xs 0)"

subsection \<open>LookupPositionInDictNameList\<close>

text \<open>
  The body of the loop \<^verbatim>\<open>while(imin < imax)\<close>: it returns the next values of
  \<open>imin\<close> and \<open>imax\<close>. The three variables are \<^verbatim>\<open>int32\<close>, and \<open>/\<close> truncates
  towards zero. The name at \<open>imid\<close> is read before the debug assertion \<open>imid < imax\<close>
  is checked; \<open>dbg\<close> tells whether the build checks \<^verbatim>\<open>AssertMsg\<close>.
\<close>

definition searchBody ::
  "bool \<Rightarrow> TTAutoString \<Rightarrow> 'k NameDict \<Rightarrow> 'k list \<Rightarrow> int \<Rightarrow> int \<Rightarrow> error + int \<times> int" where
  "searchBody dbg key d xs imin imax =
     (case int32_add imin imax of
        Inl e \<Rightarrow> Inl e
      | Inr s \<Rightarrow>
          let imid = s sdiv 2 in
          (case list_Item xs imid of
             Inl e \<Rightarrow> Inl e
           | Inr obj \<Rightarrow>
               (case dict_Item d obj of
                  Inl e \<Rightarrow> Inl e
                | Inr imidStr \<Rightarrow>
                    if dbg \<and> \<not> imid < imax then
                      Inl (AssertFailed ''Something went wrong with our indexing.'')
                    else if wcscmp imidStr key < 0 then Inr (imid + 1, imax)
                    else Inr (imin, imid))))"

text \<open>
  The loop. Nothing in its text says that it ends, so the result is an option: \<open>None\<close>
  stands for a loop that runs forever.
\<close>

partial_function (option) searchLoop ::
  "bool \<Rightarrow> TTAutoString \<Rightarrow> 'k NameDict \<Rightarrow> 'k list \<Rightarrow> int \<Rightarrow> int \<Rightarrow> (error + int \<times> int) option"
  where
  "searchLoop dbg key d xs imin imax =
     (if imin < imax then
        (case searchBody dbg key d xs imin imax of
           Inl e \<Rightarrow> Some (Inl e)
         | Inr (imin', imax') \<Rightarrow> searchLoop dbg key d xs imin' imax')
      else Some (Inr (imin, imax)))"

declare searchLoop.simps [code]

text \<open>
  The function: \<open>dbg\<close> is the build flavour (debug assertions on), \<open>mustFind\<close> the
  template parameter. \<^verbatim>\<open>nullString\<close> is not used by the body and is left out.
\<close>

definition LookupPositionInDictNameList ::
  "bool \<Rightarrow> bool \<Rightarrow> TTAutoString \<Rightarrow> 'k NameDict \<Rightarrow> 'k list \<Rightarrow> (error + int) option" where
  "LookupPositionInDictNameList dbg mustFind key objToNameMap sortedObjList =
     (if dbg \<and> length sortedObjList = 0 then
        Some (Inl (AssertFailed
          ''We are using this for matching so obviously no match and there is a problem.''))
      else
        (case searchLoop dbg key objToNameMap sortedObjList 0 (int (length sortedObjList) - 1) of
           None \<Rightarrow> None
         | Some (Inl e) \<Rightarrow> Some (Inl e)
         | Some (Inr (imin, imax)) \<Rightarrow>
             if imin \<noteq> imax then Some (Inl (TTDAssertFailed ''Something went wrong!!!''))
             else
               (case list_Item sortedObjList imin of
                  Inl e \<Rightarrow> Some (Inl e)
                | Inr obj \<Rightarrow>
                    (case dict_Item objToNameMap obj of
                       Inl e \<Rightarrow> Some (Inl e)
                     | Inr resStr \<Rightarrow>
                         if mustFind then
                           (if wcscmp resStr key \<noteq> 0
                            then Some (Inl (TTDAssertFailed ''We are missing something''))
                            else Some (Inr imin))
                         else Some (Inr (if wcscmp resStr key = 0 then imin else - 1))))))"

section \<open>The classes of the header\<close>

text \<open>
  The header declares the classes and their fields; the bodies of the member functions
  are in a source file of their own. Each member function below is therefore modelled
  from the specification, over the fields the header gives.
\<close>

subsection \<open>ThreadContextTTD\<close>

text \<open>\<^verbatim>\<open>#define MAX_CONTEXT_COUNT 32\<close>\<close>

definition MAX_CONTEXT_COUNT :: nat where
  "MAX_CONTEXT_COUNT = 32"

text \<open>
  \<^verbatim>\<open>TTD_LOG_PTR_ID\<close> is declared elsewhere; the specification calls it an opaque
  integer.
\<close>

type_synonym TTD_LOG_PTR_ID = int

record DeadScriptLogTagInfo =
  GlobalLogTag :: TTD_LOG_PTR_ID
  UndefinedLogTag :: TTD_LOG_PTR_ID
  NullLogTag :: TTD_LOG_PTR_ID
  TrueLogTag :: TTD_LOG_PTR_ID
  FalseLogTag :: TTD_LOG_PTR_ID

text \<open>
  The private fields of \<^verbatim>\<open>ThreadContextTTD\<close> that hold the contexts and the roots.
  The pointers to the thread context and to the runtime handle and the host's callbacks
  are left out. \<open>'ctx\<close> stands for \<^verbatim>\<open>Js::ScriptContext*\<close>, \<open>'ext\<close> for
  \<^verbatim>\<open>FinalizableObject*\<close> and \<open>'obj\<close> for \<^verbatim>\<open>Js::RecyclableObject*\<close>.
\<close>

record ('ctx, 'ext, 'obj) ThreadContextTTD =
  m_contextCreatedOrDestoyedInReplay :: bool
  m_activeContext :: "'ctx option"
  m_contextList :: "'ctx list"
  m_deadScriptRecordList :: "DeadScriptLogTagInfo list"
  m_ttdContextToExternalRefMap :: "'ctx \<rightharpoonup> 'ext"
  m_ttdRootSet :: "'obj set"
  m_ttdLocalRootSet :: "'obj set"
  m_ttdRootTagIdMap :: "TTD_LOG_PTR_ID \<rightharpoonup> 'obj"

text \<open>
  Modelled from the spec: the constructor of \<^verbatim>\<open>ThreadContextTTD\<close>, whose body is not
  in the header. A new registry tracks no context and no root.
\<close>

definition newThreadContextTTD :: "('ctx, 'ext, 'obj) ThreadContextTTD" where
  "newThreadContextTTD =
     \<lparr> m_contextCreatedOrDestoyedInReplay = False, m_activeContext = None,
       m_contextList = [], m_deadScriptRecordList = [],
       m_ttdContextToExternalRefMap = Map.empty, m_ttdRootSet = {}, m_ttdLocalRootSet = {},
       m_ttdRootTagIdMap = Map.empty \<rparr>"

text \<open>
  Modelled from the spec: the body of \<^verbatim>\<open>ThreadContextTTD::AddNewScriptContextRecord\<close>,
  which the header only declares. "Register a new execution context, add it to the
  live-context list, bind its host-visible external handle. Fails if the live-context
  count would exceed the fixed capacity (32)"; registering a context twice is an error
  of its own. A failure leaves the registry as it was. The callback functor and the
  two flags configure the context, not the registry, and are left out.
\<close>

definition AddNewScriptContextRecord ::
  "'ext \<Rightarrow> 'ctx \<Rightarrow> ('ctx, 'ext, 'obj) ThreadContextTTD
     \<Rightarrow> error option \<times> ('ctx, 'ext, 'obj) ThreadContextTTD" where
  "AddNewScriptContextRecord externalCtx ctx st =
     (if ctx \<in> dom (m_ttdContextToExternalRefMap st) then (Some DoubleRegistration, st)
      else if MAX_CONTEXT_COUNT < length (m_contextList st) + 1 then (Some CapacityExceeded, st)
      else (None, st\<lparr> m_contextList := m_contextList st @ [ctx],
                        m_ttdContextToExternalRefMap :=
                          (m_ttdContextToExternalRefMap st)(ctx \<mapsto> externalCtx) \<rparr>))"

text \<open>
  Modelled from the spec: the body of \<^verbatim>\<open>ThreadContextTTD::NotifyCtxDestroyInRecord\<close>,
  which the header only declares. It "removes ctx from the live list", doing "only a
  map-membership check and removal", and is a "no-op" for a context that is not tracked.
  The header's comment says the same: the mode cannot be checked there, so the function
  checks whether the context is in the map.
\<close>

definition NotifyCtxDestroyInRecord ::
  "'ctx \<Rightarrow> ('ctx, 'ext, 'obj) ThreadContextTTD \<Rightarrow> ('ctx, 'ext, 'obj) ThreadContextTTD" where
  "NotifyCtxDestroyInRecord ctx st =
     (if ctx \<in> dom (m_ttdContextToExternalRefMap st)
      then st\<lparr> m_contextList := remove1 ctx (m_contextList st),
               m_ttdContextToExternalRefMap := (m_ttdContextToExternalRefMap st)(ctx := None) \<rparr>
      else st)"

subsection \<open>ScriptContextTTD\<close>

text \<open>
  \<^verbatim>\<open>struct TTDPendingAsyncBufferModification\<close>: the array buffer and the \<^verbatim>\<open>uint32\<close>
  start index. Of the fields of \<^verbatim>\<open>ScriptContextTTD\<close> only the list of pending
  modifications is modelled.
\<close>

record 'buf TTDPendingAsyncBufferModification =
  ArrayBufferVar :: 'buf
  Index :: "32 word"

record 'buf ScriptContextTTD =
  m_ttdPendingAsyncModList :: "'buf TTDPendingAsyncBufferModification list"

text \<open>
  Modelled from the spec: the body of \<^verbatim>\<open>ScriptContextTTD::AddToAsyncPendingList\<close>,
  which the header only declares: "append to the FIFO queue; no dedup, no reordering".
\<close>

definition AddToAsyncPendingList ::
  "'buf \<Rightarrow> 32 word \<Rightarrow> 'buf ScriptContextTTD \<Rightarrow> 'buf ScriptContextTTD" where
  "AddToAsyncPendingList trgt index st =
     st\<lparr> m_ttdPendingAsyncModList :=
          m_ttdPendingAsyncModList st @ [\<lparr> ArrayBufferVar = trgt, Index = index \<rparr>] \<rparr>"

text \<open>
  Modelled from the spec: the body of \<^verbatim>\<open>ScriptContextTTD::GetFromAsyncPendingList\<close>,
  which the header only declares: "pop-front semantics for replay application; caller
  supplies the actual bytes/location to realize the queued write". The location
  \<open>finalModPos\<close> is the caller's and plays no part in which entry is returned. The
  specification does not say what an empty queue gives; the model returns nothing.
\<close>

definition GetFromAsyncPendingList ::
  "nat \<Rightarrow> 'buf ScriptContextTTD
     \<Rightarrow> 'buf TTDPendingAsyncBufferModification option \<times> 'buf ScriptContextTTD" where
  "GetFromAsyncPendingList finalModPos st =
     (case m_ttdPendingAsyncModList st of
        [] \<Rightarrow> (None, st)
      | pendingInfo # rest \<Rightarrow> (Some pendingInfo, st\<lparr> m_ttdPendingAsyncModList := rest \<rparr>))"

subsection \<open>RuntimeContextInfo\<close>




















section \<open>Notions used in the statements\<close>

subsection \<open>Names and their order\<close>

text \<open>
  The name a dictionary assigns to an entity (the empty string for an entity it does not
  hold), a list in non-decreasing \<^verbatim>\<open>wcscmp\<close> order of the assigned names, a key that
  is the name of some entity of a list, and an entity whose name no other entity of
  the dictionary has.
\<close>

definition nameOf :: "'k NameDict \<Rightarrow> 'k \<Rightarrow> TTAutoString" where
  "nameOf d k = (case map_of d k of None \<Rightarrow> [] | Some s \<Rightarrow> s)"

definition sortedOnNames :: "'k NameDict \<Rightarrow> 'k list \<Rightarrow> bool" where
  "sortedOnNames d xs = sorted_wrt (\<lambda>a b. wcscmp (nameOf d a) (nameOf d b) \<le> 0) xs"

definition keyPresent :: "'k NameDict \<Rightarrow> 'k list \<Rightarrow> TTAutoString \<Rightarrow> bool" where
  "keyPresent d xs key = (\<exists>e \<in> set xs. wcscmp (nameOf d e) key = 0)"


text \<open>
  The string a buffer denotes ends at its first NUL. Taken as lists of unsigned code
  units in lexicographic order, these strings are a linear order, and the sign of
  \<^verbatim>\<open>wcscmp\<close> is the comparison in that order. \<open>nm d k\<close> is the name of \<open>k\<close> as an
  element of that order.
\<close>

definition cstr :: "TTAutoString \<Rightarrow> char16 list" where
  "cstr s = takeWhile (\<lambda>c. c \<noteq> 0) s"

definition nm :: "'k NameDict \<Rightarrow> 'k \<Rightarrow> char16 list" where
  "nm d k = cstr (nameOf d k)"

subsection \<open>The sort as the specification words it\<close>

text \<open>
  "A gap-sequence insertion sort with gaps {701,301,132,57,23,10,4,1} applied in that
  order (each pass is a standard insertion sort restricted to elements gap apart)."
  The elements \<open>gap\<close> apart that start at position \<open>r\<close> form a chain; a pass replaces
  every chain by its insertion sort (\<^const>\<open>sort_key\<close>, which inserts one element
  after the other into a sorted list and keeps equal keys in their order) and leaves
  every element in the positions of its chain.
\<close>

definition chain :: "nat \<Rightarrow> nat \<Rightarrow> 'a list \<Rightarrow> 'a list" where
  "chain gap r xs = map (\<lambda>q. xs ! (r + q * gap)) [0..<(length xs + gap - 1 - r) div gap]"

definition gapInsertionSort :: "('a \<Rightarrow> 'b::linorder) \<Rightarrow> nat \<Rightarrow> 'a list \<Rightarrow> 'a list" where
  "gapInsertionSort f gap xs =
     map (\<lambda>i. sort_key f (chain gap (i mod gap) xs) ! (i div gap)) [0..<length xs]"

definition specSort :: "('a \<Rightarrow> 'b::linorder) \<Rightarrow> 'a list \<Rightarrow> 'a list" where
  "specSort f xs = foldl (\<lambda>v gap. gapInsertionSort f gap v) xs [701, 301, 132, 57, 23, 10, 4, 1]"

subsection \<open>Runs of calls\<close>

text \<open>
  Registrations one after the other, each on the registry the previous one left; the
  results are collected in order.
\<close>

fun registerInOrder ::
  "('ext \<times> 'ctx) list \<Rightarrow> ('ctx, 'ext, 'obj) ThreadContextTTD
     \<Rightarrow> error option list \<times> ('ctx, 'ext, 'obj) ThreadContextTTD" where
  "registerInOrder [] st = ([], st)"
| "registerInOrder ((externalCtx, ctx) # rest) st =
     (case AddNewScriptContextRecord externalCtx ctx st of
        (r, st') \<Rightarrow> (case registerInOrder rest st' of (rs, st'') \<Rightarrow> (r # rs, st'')))"

text \<open>
  Calls of \<^verbatim>\<open>AddToAsyncPendingList\<close> one after the other, and calls of
  \<^verbatim>\<open>GetFromAsyncPendingList\<close> one after the other, one for each given location.
\<close>

fun enqueueAll :: "('buf \<times> 32 word) list \<Rightarrow> 'buf ScriptContextTTD \<Rightarrow> 'buf ScriptContextTTD" where
  "enqueueAll [] st = st"
| "enqueueAll ((trgt, index) # rest) st = enqueueAll rest (AddToAsyncPendingList trgt index st)"

fun drain ::
  "nat list \<Rightarrow> 'buf ScriptContextTTD
     \<Rightarrow> 'buf TTDPendingAsyncBufferModification option list \<times> 'buf ScriptContextTTD" where
  "drain [] st = ([], st)"
| "drain (finalModPos # rest) st =
     (case GetFromAsyncPendingList finalModPos st of
        (r, st') \<Rightarrow> (case drain rest st' of (rs, st'') \<Rightarrow> (r # rs, st'')))"

subsection \<open>The index of well-known paths\<close>



subsection \<open>The passes as exchanges\<close>

text \<open>
  The inner loop of the sort keeps the element it inserts in \<open>temp\<close> and leaves a hole
  in the list. With \<open>temp\<close> written into the hole, one iteration exchanges the elements
  at \<open>j - gap\<close> and \<open>j\<close>, which are out of order. \<open>bubble\<close> is the inner loop and
  \<open>gapPass\<close> the pass in this form, over any key function; \<open>gapSorted f gap m v\<close> says
  that below \<open>m\<close> every element of \<open>v\<close> is at least the one \<open>gap\<close> places before it.
\<close>

function bubble :: "('a \<Rightarrow> 'b::linorder) \<Rightarrow> nat \<Rightarrow> 'a list \<Rightarrow> nat \<Rightarrow> 'a list" where
  "bubble f gap v j =
     (if 0 < gap \<and> gap \<le> j \<and> f (v ! j) < f (v ! (j - gap))
      then bubble f gap (v[j := v ! (j - gap), j - gap := v ! j]) (j - gap)
      else v)"
  by pat_completeness auto
termination
  by (relation "measure (\<lambda>(f, gap, v, j). j)") auto

function gapPass :: "('a \<Rightarrow> 'b::linorder) \<Rightarrow> nat \<Rightarrow> nat \<Rightarrow> 'a list \<Rightarrow> nat \<Rightarrow> 'a list" where
  "gapPass f gap llen v i =
     (if i < llen then gapPass f gap llen (bubble f gap v i) (i + 1) else v)"
  by pat_completeness auto
termination
  by (relation "measure (\<lambda>(f, gap, llen, v, i). llen - i)") auto

definition gapSorted :: "('a \<Rightarrow> 'b::linorder) \<Rightarrow> nat \<Rightarrow> nat \<Rightarrow> 'a list \<Rightarrow> bool" where
  "gapSorted f gap m v = (\<forall>k. gap \<le> k \<and> k < m \<longrightarrow> f (v ! (k - gap)) \<le> f (v ! k))"

declare bubble.simps [simp del] gapPass.simps [simp del]
declare shiftLoop.simps [simp del] passLoop.simps [simp del] gapLoop.simps [simp del]

section \<open>Properties\<close>

subsection \<open>The order of wcscmp\<close>

lemma cstr_simps [simp]:
  "cstr [] = []"
  "cstr (x # xs) = (if x = 0 then [] else x # cstr xs)"
  by (simp_all add: cstr_def)


lemma wcscmp_neg_iff: "wcscmp a b < 0 \<longleftrightarrow> cstr a < cstr b"
  by (induction a b rule: wcscmp.induct) auto

lemma wcscmp_pos_iff: "0 < wcscmp a b \<longleftrightarrow> cstr b < cstr a"
  by (induction a b rule: wcscmp.induct) auto

lemma wcscmp_le_0_iff: "wcscmp a b \<le> 0 \<longleftrightarrow> cstr a \<le> cstr b"
  using wcscmp_pos_iff [of a b] by (simp add: not_less [symmetric])

lemma sortedOnNames_iff: "sortedOnNames d xs \<longleftrightarrow> sorted (map (nm d) xs)"
  by (simp add: sortedOnNames_def sorted_map wcscmp_le_0_iff nm_def)

lemma dict_Item_key: "k \<in> fst ` set d \<Longrightarrow> dict_Item d k = Inr (nameOf d k)"
  by (auto simp: dict_Item_def nameOf_def map_of_eq_None_iff split: option.splits)

lemma sdiv_2_nonneg: "0 \<le> (s::int) \<Longrightarrow> s sdiv 2 = s div 2"
  by (simp add: signed_divide_int_def sgn_if)

text \<open>One iteration inside the list: the midpoint and the two possible next intervals.\<close>

lemma searchBody_inside:
  assumes "set xs \<subseteq> fst ` set d" and "length xs \<le> 2 ^ 30"
    and "0 \<le> imin" and "imin < imax" and "imax < int (length xs)"
  shows "int32_add imin imax = Inr (imin + imax)"
    and "(imin + imax) sdiv 2 = (imin + imax) div 2"
    and "searchBody dbg key d xs imin imax =
      (if wcscmp (nameOf d (xs ! nat ((imin + imax) div 2))) key < 0
       then Inr ((imin + imax) div 2 + 1, imax) else Inr (imin, (imin + imax) div 2))"
proof -
  define imid where "imid = (imin + imax) div 2"
  have mid: "imin \<le> imid" "imid < imax"
    using assms by (simp_all add: imid_def)
  have rng: "0 \<le> imid" "imid < int (length xs)"
    using mid assms by simp_all
  show sum: "int32_add imin imax = Inr (imin + imax)"
    using assms by (simp add: int32_add_def)
  show sd: "(imin + imax) sdiv 2 = (imin + imax) div 2"
    using assms by (simp add: sdiv_2_nonneg)
  have "xs ! nat imid \<in> fst ` set d"
    using rng assms(1) by (auto simp: subset_iff)
  then have ditem: "dict_Item d (xs ! nat imid) = Inr (nameOf d (xs ! nat imid))"
    by (rule dict_Item_key)
  have item: "list_Item xs imid = Inr (xs ! nat imid)"
    using rng by (simp add: list_Item_def)
  show "searchBody dbg key d xs imin imax =
      (if wcscmp (nameOf d (xs ! nat ((imin + imax) div 2))) key < 0
       then Inr ((imin + imax) div 2 + 1, imax) else Inr (imin, (imin + imax) div 2))"
    using mid by (simp add: searchBody_def sum sd imid_def [symmetric] item ditem)
qed

lemma searchLoop_result:
  assumes "set xs \<subseteq> fst ` set d" and "length xs \<le> 2 ^ 30"
    and "0 \<le> imin" and "imin \<le> imax" and "imax < int (length xs)"
  shows "\<exists>i. searchLoop dbg key d xs imin imax = Some (Inr (i, i)) \<and> imin \<le> i \<and> i \<le> imax \<and>
           (sorted (map (nm d) xs) \<longrightarrow>
              (\<forall>k. imin \<le> k \<and> k < i \<longrightarrow> nm d (xs ! nat k) < cstr key) \<and>
              (i < imax \<longrightarrow> cstr key \<le> nm d (xs ! nat i)))"
  using assms
proof (induction "nat (imax - imin)" arbitrary: imin imax rule: less_induct)
  case less
  show ?case
  proof (cases "imin < imax")
    case False
    with less.prems have "imin = imax" by simp
    then show ?thesis
      by (subst searchLoop.simps) auto
  next
    case True
    define imid where "imid = (imin + imax) div 2"
    have mid: "imin \<le> imid" "imid < imax"
      using True by (simp_all add: imid_def)
    have rng: "0 \<le> imid" "imid < int (length xs)"
      using mid less.prems by simp_all
    note body = searchBody_inside(3) [OF less.prems(1,2,3) True less.prems(5), of dbg key,
        folded imid_def]
    show ?thesis
    proof (cases "wcscmp (nameOf d (xs ! nat imid)) key < 0")
      case lt: True
      have step: "searchLoop dbg key d xs imin imax = searchLoop dbg key d xs (imid + 1) imax"
        using True lt by (subst searchLoop.simps) (simp add: body)
      have "nat (imax - (imid + 1)) < nat (imax - imin)"
        using mid by simp
      from less.hyps [OF this less.prems(1,2)] mid less.prems
      obtain i where i: "searchLoop dbg key d xs (imid + 1) imax = Some (Inr (i, i))"
        "imid + 1 \<le> i" "i \<le> imax"
        "sorted (map (nm d) xs) \<longrightarrow>
              (\<forall>k. imid + 1 \<le> k \<and> k < i \<longrightarrow> nm d (xs ! nat k) < cstr key) \<and>
              (i < imax \<longrightarrow> cstr key \<le> nm d (xs ! nat i))"
        by fastforce
      have low: "nm d (xs ! nat k) < cstr key"
        if srt: "sorted (map (nm d) xs)" and k: "imin \<le> k" "k < i" for k
      proof (cases "imid + 1 \<le> k")
        case True
        with i(4) srt k show ?thesis by simp
      next
        case False
        then have "nat k \<le> nat imid" "nat imid < length xs"
          using rng by simp_all
        then have "map (nm d) xs ! nat k \<le> map (nm d) xs ! nat imid"
          using srt by (simp add: sorted_iff_nth_mono)
        moreover have "nat k < length xs"
          using \<open>nat k \<le> nat imid\<close> \<open>nat imid < length xs\<close> by simp
        moreover have "nm d (xs ! nat imid) < cstr key"
          using lt by (simp add: wcscmp_neg_iff nm_def)
        ultimately show ?thesis
          using \<open>nat imid < length xs\<close> by simp
      qed
      show ?thesis
        using step i mid low by (intro exI [of _ i]) auto
    next
      case ge: False
      have step: "searchLoop dbg key d xs imin imax = searchLoop dbg key d xs imin imid"
        using True ge by (subst searchLoop.simps) (simp add: body)
      have "nat (imid - imin) < nat (imax - imin)"
        using mid by simp
      from less.hyps [OF this less.prems(1,2,3)] mid rng
      obtain i where i: "searchLoop dbg key d xs imin imid = Some (Inr (i, i))"
        "imin \<le> i" "i \<le> imid"
        "sorted (map (nm d) xs) \<longrightarrow>
              (\<forall>k. imin \<le> k \<and> k < i \<longrightarrow> nm d (xs ! nat k) < cstr key) \<and>
              (i < imid \<longrightarrow> cstr key \<le> nm d (xs ! nat i))"
        by fastforce
      have "cstr key \<le> nm d (xs ! nat imid)"
        using ge by (simp add: wcscmp_neg_iff nm_def not_less)
      then have "cstr key \<le> nm d (xs ! nat i)" if "sorted (map (nm d) xs)"
        using i(3,4) that by (cases "i < imid") auto
      then show ?thesis
        using step i mid by (intro exI [of _ i]) auto
    qed
  qed
qed

text \<open>What the function returns on a non-empty list, in terms of the position the loop ends at.\<close>

lemma Lookup_nonempty:
  assumes "xs \<noteq> []" and "set xs \<subseteq> fst ` set d" and "length xs \<le> 2 ^ 30"
  shows "\<exists>i < length xs.
           LookupPositionInDictNameList dbg mustFind key d xs =
             (if wcscmp (nameOf d (xs ! i)) key = 0 then Some (Inr (int i))
              else if mustFind then Some (Inl (TTDAssertFailed ''We are missing something''))
              else Some (Inr (- 1))) \<and>
           (sorted (map (nm d) xs) \<longrightarrow>
              (\<forall>k < i. nm d (xs ! k) < cstr key) \<and>
              (Suc i < length xs \<longrightarrow> cstr key \<le> nm d (xs ! i)))"
proof -
  have "0 \<le> int (length xs) - 1" "int (length xs) - 1 < int (length xs)"
    using assms(1) by (simp_all add: Suc_le_eq)
  from searchLoop_result [OF assms(2,3) order_refl this, of dbg key]
  obtain i where i: "searchLoop dbg key d xs 0 (int (length xs) - 1) = Some (Inr (i, i))"
    "0 \<le> i" "i \<le> int (length xs) - 1"
    "sorted (map (nm d) xs) \<longrightarrow>
       (\<forall>k. 0 \<le> k \<and> k < i \<longrightarrow> nm d (xs ! nat k) < cstr key) \<and>
       (i < int (length xs) - 1 \<longrightarrow> cstr key \<le> nm d (xs ! nat i))"
    by blast
  have lt: "nat i < length xs"
    using i(2,3) by simp
  then have "xs ! nat i \<in> fst ` set d"
    using assms(2) by (auto simp: subset_iff)
  then have ditem: "dict_Item d (xs ! nat i) = Inr (nameOf d (xs ! nat i))"
    by (rule dict_Item_key)
  have item: "list_Item xs i = Inr (xs ! nat i)"
    using i(2,3) by (simp add: list_Item_def)
  have res: "LookupPositionInDictNameList dbg mustFind key d xs =
             (if wcscmp (nameOf d (xs ! nat i)) key = 0 then Some (Inr (int (nat i)))
              else if mustFind then Some (Inl (TTDAssertFailed ''We are missing something''))
              else Some (Inr (- 1)))"
    using assms(1) i(2) by (simp add: LookupPositionInDictNameList_def i(1) item ditem)
  have "\<forall>k < nat i. nm d (xs ! k) < cstr key" if "sorted (map (nm d) xs)"
  proof (intro allI impI)
    fix k assume "k < nat i"
    then have "0 \<le> int k \<and> int k < i" by simp
    with i(4) that have "nm d (xs ! nat (int k)) < cstr key" by blast
    then show "nm d (xs ! k) < cstr key" by simp
  qed
  moreover have "cstr key \<le> nm d (xs ! nat i)"
    if "sorted (map (nm d) xs)" "Suc (nat i) < length xs"
  proof -
    from that(2) i(2) have "i < int (length xs) - 1" by simp
    with i(4) that(1) show ?thesis by blast
  qed
  ultimately show ?thesis
    using lt res by (intro exI [of _ "nat i"]) blast
qed

lemma Lookup_absent:
  assumes "xs \<noteq> []" and "set xs \<subseteq> fst ` set d" and "length xs \<le> 2 ^ 30"
    and "\<not> keyPresent d xs key"
  shows "LookupPositionInDictNameList dbg mustFind key d xs =
     (if mustFind then Some (Inl (TTDAssertFailed ''We are missing something''))
      else Some (Inr (- 1)))"
proof -
  from Lookup_nonempty [OF assms(1,2,3), of dbg mustFind key]
  obtain i where i: "i < length xs"
    "LookupPositionInDictNameList dbg mustFind key d xs =
       (if wcscmp (nameOf d (xs ! i)) key = 0 then Some (Inr (int i))
        else if mustFind then Some (Inl (TTDAssertFailed ''We are missing something''))
        else Some (Inr (- 1)))"
    by auto
  from assms(4) i(1) have "wcscmp (nameOf d (xs ! i)) key \<noteq> 0"
    by (auto simp: keyPresent_def)
  with i(2) show ?thesis by simp
qed




subsection \<open>The binary search\<close>







text \<open>
  Claim C2, amended. On a non-empty list (at most \<open>2 ^ 30\<close> entries, all keys of the
  dictionary; sorted or not, with or without equal adjacent names) the "find or
  not-present" mode returns \<open>-1\<close> for a key that is the name of no entry.
\<close>

theorem findOrNotPresent_absent:
  assumes "sortedObjList \<noteq> []" and "length sortedObjList \<le> 2 ^ 30"
    and "set sortedObjList \<subseteq> fst ` set d" and "\<not> keyPresent d sortedObjList key"
  shows "LookupPositionInDictNameList dbg False key d sortedObjList = Some (Inr (- 1))"
  using Lookup_absent [OF assms(1,3,2,4), of dbg False] by simp

text \<open>A one-entry list, and a list with equal adjacent names.\<close>

theorem findOrNotPresent_absent_witness:
  "LookupPositionInDictNameList False False [98] [(7::nat, [97])] [7] = Some (Inr (- 1)) \<and>
   LookupPositionInDictNameList True False [98]
     [(1::nat, [99]), (2, [97]), (3, [99]), (4, [97])] [2, 4, 1, 3] = Some (Inr (- 1))"
proof -
  let ?d = "[(1::nat, [99::char16]), (2, [97]), (3, [99]), (4, [97])]"
  let ?xs = "[2::nat, 4, 1, 3]"
  have one: "[7::nat] \<noteq> []" "length [7::nat] \<le> 2 ^ 30" "set [7::nat] \<subseteq> fst ` set [(7::nat, [97::char16])]"
    "\<not> keyPresent [(7::nat, [97])] [7] [98]"
    by (simp_all add: keyPresent_def nameOf_def)
  have dup: "?xs \<noteq> []" "length ?xs \<le> 2 ^ 30" "set ?xs \<subseteq> fst ` set ?d"
    "\<not> keyPresent ?d ?xs [98]"
    by (simp_all add: keyPresent_def nameOf_def)
  show ?thesis
    using findOrNotPresent_absent [OF one, of False] findOrNotPresent_absent [OF dup, of True]
    by simp
qed

text \<open>
  Claim C2 as stated includes the list with no entries. There the function does not
  return \<open>-1\<close>: a debug build fails the assertion on the count, and a release build
  leaves the loop with \<open>imin = 0\<close> and \<open>imax = -1\<close> and fails the fatal assertion
  \<open>imin == imax\<close>.
\<close>

theorem findOrNotPresent_empty_list:
  "LookupPositionInDictNameList False False [97] ([] :: nat NameDict) []
     = Some (Inl (TTDAssertFailed ''Something went wrong!!!'')) \<and>
   LookupPositionInDictNameList True False [97] ([] :: nat NameDict) []
     = Some (Inl (AssertFailed
         ''We are using this for matching so obviously no match and there is a problem.'')) \<and>
   LookupPositionInDictNameList False False [97] ([] :: nat NameDict) [] \<noteq> Some (Inr (- 1)) \<and>
   LookupPositionInDictNameList True False [97] ([] :: nat NameDict) [] \<noteq> Some (Inr (- 1)) \<and>
   sortedOnNames ([] :: nat NameDict) [] \<and> \<not> keyPresent ([] :: nat NameDict) [] [97]"
  by (simp add: LookupPositionInDictNameList_def searchLoop.simps sortedOnNames_def keyPresent_def)

subsection \<open>Chains\<close>

lemma in_chain_iff:
  assumes "0 < gap" and "r < gap"
  shows "q < length (chain gap r xs) \<longleftrightarrow> r + q * gap < length xs"
proof -
  let ?n = "length xs"
  have "q < (?n + gap - 1 - r) div gap \<longleftrightarrow> Suc q \<le> (?n + gap - 1 - r) div gap"
    by (simp only: Suc_le_eq)
  also have "\<dots> \<longleftrightarrow> Suc q * gap \<le> ?n + gap - 1 - r"
    using assms(1) by (simp only: less_eq_div_iff_mult_less_eq)
  also have "\<dots> \<longleftrightarrow> r + q * gap < ?n"
    using assms by auto
  finally show ?thesis
    by (simp only: chain_def length_map length_upt minus_nat.diff_0)
qed

lemma chain_nth:
  assumes "q < length (chain gap r xs)"
  shows "chain gap r xs ! q = xs ! (r + q * gap)"
  using assms by (simp add: chain_def)

lemma length_chain_update [simp]: "length (chain gap r (xs[p := z])) = length (chain gap r xs)"
  by (simp add: chain_def)

lemma chain_update:
  assumes "0 < gap" and "r < gap" and "p < length xs"
  shows "chain gap r (xs[p := z]) =
     (if p mod gap = r then (chain gap r xs)[p div gap := z] else chain gap r xs)"
proof (rule nth_equalityI)
  show "length (chain gap r (xs[p := z])) =
    length (if p mod gap = r then (chain gap r xs)[p div gap := z] else chain gap r xs)"
    by simp
next
  fix q
  assume "q < length (chain gap r (xs[p := z]))"
  then have q: "q < length (chain gap r xs)"
    by simp
  have inside: "r + q * gap < length xs"
    using q assms(1,2) by (simp only: in_chain_iff)
  have old: "chain gap r xs ! q = xs ! (r + q * gap)"
    using q by (rule chain_nth)
  have new: "chain gap r (xs[p := z]) ! q = xs[p := z] ! (r + q * gap)"
    using q by (simp add: chain_nth)
  have "(r + q * gap) mod gap = r" "(r + q * gap) div gap = q"
    using assms(1,2) by simp_all
  moreover have "p mod gap + p div gap * gap = p"
    by simp
  ultimately have eq: "r + q * gap = p \<longleftrightarrow> p mod gap = r \<and> p div gap = q"
    by metis
  show "chain gap r (xs[p := z]) ! q =
    (if p mod gap = r then (chain gap r xs)[p div gap := z] else chain gap r xs) ! q"
  proof (cases "r + q * gap = p")
    case True
    with eq q assms(3) show ?thesis by (simp add: new)
  next
    case False
    with eq have "p mod gap = r \<Longrightarrow> p div gap \<noteq> q" by simp
    with False old show ?thesis by (auto simp add: new)
  qed
qed

subsection \<open>One pass: what the exchanges preserve and what they establish\<close>

lemma filter_exchange_adjacent:
  assumes "Suc q < length c" and "\<not> (P (c ! q) \<and> P (c ! Suc q))"
  shows "filter P (c[Suc q := c ! q, q := c ! Suc q]) = filter P c"
  using assms
proof (induction c arbitrary: q)
  case Nil
  then show ?case by simp
next
  case (Cons x c)
  show ?case
  proof (cases q)
    case 0
    with Cons.prems obtain y zs where "c = y # zs"
      by (cases c) auto
    with 0 Cons.prems show ?thesis by auto
  next
    case (Suc q')
    with Cons.prems Cons.IH [of q'] show ?thesis by simp
  qed
qed

lemma mset_exchange_adjacent:
  assumes "Suc q < length c"
  shows "mset (c[Suc q := c ! q, q := c ! Suc q]) = mset c"
  using assms by (simp add: mset_swap)

lemma chain_exchange:
  assumes "0 < gap" and "gap \<le> j" and "j < length v" and "r < gap"
  defines "q \<equiv> (j - gap) div gap"
  shows "chain gap r (v[j := v ! (j - gap), j - gap := v ! j]) =
     (if j mod gap = r
      then (chain gap r v)[Suc q := chain gap r v ! q, q := chain gap r v ! Suc q]
      else chain gap r v)"
    and "j mod gap = r \<Longrightarrow> Suc q < length (chain gap r v)"
    and "j mod gap = r \<Longrightarrow> chain gap r v ! q = v ! (j - gap)"
    and "j mod gap = r \<Longrightarrow> chain gap r v ! Suc q = v ! j"
proof -
  have md: "(j - gap) mod gap = j mod gap"
    using assms(2) by (simp add: le_mod_geq)
  have dv: "j div gap = Suc q"
    using assms(1,2) by (simp add: le_div_geq q_def)
  have lo: "j - gap < length v"
    using assms(3) by simp
  have pos: "j mod gap + Suc q * gap = j"
    using dv [symmetric] by simp
  have pos': "j mod gap + q * gap = j - gap"
    using pos by simp
  show len: "Suc q < length (chain gap r v)" if "j mod gap = r"
    using that assms(1,3,4) pos by (simp only: in_chain_iff)
  have len': "q < length (chain gap r v)" if "j mod gap = r"
    using len [OF that] by simp
  show a: "chain gap r v ! q = v ! (j - gap)" if "j mod gap = r"
    using chain_nth [OF len' [OF that]] that pos' by simp
  show b: "chain gap r v ! Suc q = v ! j" if "j mod gap = r"
    using chain_nth [OF len [OF that]] that pos by simp
  show "chain gap r (v[j := v ! (j - gap), j - gap := v ! j]) =
     (if j mod gap = r
      then (chain gap r v)[Suc q := chain gap r v ! q, q := chain gap r v ! Suc q]
      else chain gap r v)"
    using assms(1,3,4) lo a b
    by (simp add: chain_update md dv q_def [symmetric])
qed

lemma bubble_stop:
  "\<not> (0 < gap \<and> gap \<le> j \<and> f (v ! j) < f (v ! (j - gap))) \<Longrightarrow> bubble f gap v j = v"
  by (subst bubble.simps) (simp only: if_False)

lemma bubble_step:
  "0 < gap \<and> gap \<le> j \<and> f (v ! j) < f (v ! (j - gap)) \<Longrightarrow>
   bubble f gap v j = bubble f gap (v[j := v ! (j - gap), j - gap := v ! j]) (j - gap)"
  by (subst bubble.simps) (simp only: if_True simp_thms)

lemma bubble_chains:
  assumes "0 < gap" and "j < length v" and "r < gap"
  shows "length (bubble f gap v j) = length v \<and>
         mset (bubble f gap v j) = mset v \<and>
         mset (chain gap r (bubble f gap v j)) = mset (chain gap r v) \<and>
         filter (\<lambda>x. f x = c) (chain gap r (bubble f gap v j))
           = filter (\<lambda>x. f x = c) (chain gap r v)"
  using assms
proof (induction f gap v j rule: bubble.induct)
  case (1 f gap v j)
  show ?case
  proof (cases "0 < gap \<and> gap \<le> j \<and> f (v ! j) < f (v ! (j - gap))")
    case False
    then show ?thesis by (simp only: bubble_stop simp_thms)
  next
    case True
    let ?v = "v[j := v ! (j - gap), j - gap := v ! j]"
    have unfold: "bubble f gap v j = bubble f gap ?v (j - gap)"
      using True by (rule bubble_step)
    have IH: "length (bubble f gap ?v (j - gap)) = length ?v \<and>
         mset (bubble f gap ?v (j - gap)) = mset ?v \<and>
         mset (chain gap r (bubble f gap ?v (j - gap))) = mset (chain gap r ?v) \<and>
         filter (\<lambda>x. f x = c) (chain gap r (bubble f gap ?v (j - gap)))
           = filter (\<lambda>x. f x = c) (chain gap r ?v)"
      using "1.IH" [OF True] "1.prems" by simp
    have gj: "gap \<le> j" and lt: "f (v ! j) < f (v ! (j - gap))"
      using True by simp_all
    note ex = chain_exchange [OF "1.prems"(1) gj "1.prems"(2,3)]
    have whole: "mset ?v = mset v"
      using "1.prems"(2) by (simp add: mset_swap)
    have ch_mset: "mset (chain gap r ?v) = mset (chain gap r v)"
      using ex(2) by (simp add: ex(1) mset_exchange_adjacent)
    have ch_filter: "filter (\<lambda>x. f x = c) (chain gap r ?v) = filter (\<lambda>x. f x = c) (chain gap r v)"
    proof (cases "j mod gap = r")
      case False
      then show ?thesis by (simp add: ex(1))
    next
      case True
      have "\<not> (f (chain gap r v ! ((j - gap) div gap)) = c \<and>
                f (chain gap r v ! Suc ((j - gap) div gap)) = c)"
        using lt by (auto simp: ex(3) [OF True] ex(4) [OF True])
      with ex(2) [OF True] show ?thesis
        by (simp add: ex(1) True filter_exchange_adjacent)
    qed
    show ?thesis
      using IH whole ch_mset ch_filter by (simp add: unfold)
  qed
qed


lemma bubble_orders:
  assumes "0 < gap" and "j \<le> i" and "i < length v"
    and "\<forall>k. gap \<le> k \<and> k \<le> i \<and> k \<noteq> j \<longrightarrow> f (v ! (k - gap)) \<le> f (v ! k)"
    and "gap \<le> j \<and> j + gap \<le> i \<longrightarrow> f (v ! (j - gap)) \<le> f (v ! (j + gap))"
  shows "gapSorted f gap (Suc i) (bubble f gap v j)"
  using assms
proof (induction f gap v j rule: bubble.induct)
  case (1 f gap v j)
  note inv1 = "1.prems"(4) and inv2 = "1.prems"(5)
  show ?case
  proof (cases "0 < gap \<and> gap \<le> j \<and> f (v ! j) < f (v ! (j - gap))")
    case False
    have stop: "bubble f gap v j = v"
      using False by (rule bubble_stop)
    have ord: "f (v ! (k - gap)) \<le> f (v ! k)" if "gap \<le> k" "k < Suc i" for k
    proof (cases "k = j")
      case True
      with False that "1.prems"(1) show ?thesis by auto
    next
      case False
      with inv1 that show ?thesis by simp
    qed
    show ?thesis
      unfolding stop gapSorted_def using ord by blast
  next
    case True
    let ?v = "v[j := v ! (j - gap), j - gap := v ! j]"
    have gj: "gap \<le> j" and lt: "f (v ! j) < f (v ! (j - gap))" and pos: "0 < gap"
      using True by simp_all
    have jlen: "j < length v"
      using "1.prems"(2,3) by simp
    have at_lo: "?v ! (j - gap) = v ! j"
      using jlen by simp
    have at_j: "?v ! j = v ! (j - gap)"
      using jlen pos gj by simp
    have other: "?v ! x = v ! x" if "x \<noteq> j" "x \<noteq> j - gap" for x
      using that by simp
    have inv1': "f (?v ! (k - gap)) \<le> f (?v ! k)"
      if k: "gap \<le> k" "k \<le> i" "k \<noteq> j - gap" for k
    proof -
      consider "k = j" | "k = j + gap" | "k \<noteq> j" "k \<noteq> j + gap"
        by blast
      then show ?thesis
      proof cases
        case 1
        with lt show ?thesis
          by (simp only: at_lo at_j)
      next
        case 2
        then have "?v ! (k - gap) = v ! (j - gap)" "?v ! k = v ! (j + gap)"
          using at_j other [of "j + gap"] pos gj by simp_all
        with inv2 gj k 2 show ?thesis
          by simp
      next
        case 3
        then have "k - gap \<noteq> j" "k - gap \<noteq> j - gap"
          using k gj by auto
        then have "?v ! (k - gap) = v ! (k - gap)" "?v ! k = v ! k"
          using other [of "k - gap"] other [of k] 3 k by simp_all
        with 3 k inv1 show ?thesis
          by simp
      qed
    qed
    have inv2': "f (?v ! (j - gap - gap)) \<le> f (?v ! (j - gap + gap))"
      if "gap \<le> j - gap"
    proof -
      have "gap \<le> j - gap \<and> j - gap \<le> i \<and> j - gap \<noteq> j"
        using that pos gj "1.prems"(2) by arith
      with inv1 have "f (v ! (j - gap - gap)) \<le> f (v ! (j - gap))"
        by blast
      moreover have "j - gap - gap \<noteq> j - gap" "j - gap - gap \<noteq> j"
        using that pos by simp_all
      then have "?v ! (j - gap - gap) = v ! (j - gap - gap)"
        using other [of "j - gap - gap"] by simp
      moreover have "?v ! (j - gap + gap) = v ! (j - gap)"
        using at_j gj by simp
      ultimately show ?thesis
        by simp
    qed
    have "gapSorted f gap (Suc i) (bubble f gap ?v (j - gap))"
    proof (rule "1.IH" [OF True pos])
      show "j - gap \<le> i" using "1.prems"(2) by simp
      show "i < length ?v" using "1.prems"(3) by simp
      show "\<forall>k. gap \<le> k \<and> k \<le> i \<and> k \<noteq> j - gap \<longrightarrow> f (?v ! (k - gap)) \<le> f (?v ! k)"
        using inv1' by blast
      show "gap \<le> j - gap \<and> j - gap + gap \<le> i \<longrightarrow>
          f (?v ! (j - gap - gap)) \<le> f (?v ! (j - gap + gap))"
        using inv2' by blast
    qed
    then show ?thesis
      by (simp only: bubble_step [OF True])
  qed
qed

lemma gapPass_stop: "\<not> i < llen \<Longrightarrow> gapPass f gap llen v i = v"
  by (subst gapPass.simps) simp

lemma gapPass_step:
  "i < llen \<Longrightarrow> gapPass f gap llen v i = gapPass f gap llen (bubble f gap v i) (i + 1)"
  by (subst gapPass.simps) simp

lemma gapPass_chains:
  assumes "0 < gap" and "llen = length v" and "r < gap"
  shows "length (gapPass f gap llen v i) = length v \<and>
         mset (gapPass f gap llen v i) = mset v \<and>
         mset (chain gap r (gapPass f gap llen v i)) = mset (chain gap r v) \<and>
         filter (\<lambda>x. f x = c) (chain gap r (gapPass f gap llen v i))
           = filter (\<lambda>x. f x = c) (chain gap r v)"
  using assms
proof (induction f gap llen v i rule: gapPass.induct)
  case (1 f gap llen v i)
  show ?case
  proof (cases "i < llen")
    case False
    then show ?thesis by (simp add: gapPass_stop)
  next
    case True
    then have ilen: "i < length v"
      using "1.prems"(2) by simp
    note b = bubble_chains [OF "1.prems"(1) ilen "1.prems"(3), of f c]
    have "llen = length (bubble f gap v i)"
      using b "1.prems"(2) by simp
    from "1.IH" [OF True "1.prems"(1) this "1.prems"(3)] b
    show ?thesis
      by (simp add: gapPass_step [OF True])
  qed
qed

lemma gapPass_orders:
  assumes "0 < gap" and "llen = length v" and "gapSorted f gap i v"
  shows "gapSorted f gap (max i llen) (gapPass f gap llen v i)"
  using assms
proof (induction f gap llen v i rule: gapPass.induct)
  case (1 f gap llen v i)
  show ?case
  proof (cases "i < llen")
    case False
    then have "max i llen = i" by simp
    with False "1.prems"(3) show ?thesis
      by (simp add: gapPass_stop)
  next
    case True
    then have ilen: "i < length v"
      using "1.prems"(2) by simp
    have "gapSorted f gap (Suc i) (bubble f gap v i)"
    proof (rule bubble_orders [OF "1.prems"(1) order_refl ilen])
      show "\<forall>k. gap \<le> k \<and> k \<le> i \<and> k \<noteq> i \<longrightarrow> f (v ! (k - gap)) \<le> f (v ! k)"
        using "1.prems"(3) by (simp add: gapSorted_def)
      show "gap \<le> i \<and> i + gap \<le> i \<longrightarrow> f (v ! (i - gap)) \<le> f (v ! (i + gap))"
        using "1.prems"(1) by simp
    qed
    moreover have "llen = length (bubble f gap v i)"
      using bubble_chains [OF "1.prems"(1) ilen "1.prems"(1), of f] "1.prems"(2) by simp
    ultimately have "gapSorted f gap (max (i + 1) llen) (gapPass f gap llen (bubble f gap v i) (i + 1))"
      using "1.IH" [OF True "1.prems"(1)] by simp
    moreover have "max (i + 1) llen = max i llen"
      using True by simp
    ultimately show ?thesis
      by (simp add: gapPass_step [OF True])
  qed
qed

subsection \<open>One pass is the insertion sort of every chain\<close>

lemma chain_sorted:
  assumes "0 < gap" and "r < gap" and "gapSorted f gap (length v) v"
  shows "sorted (map f (chain gap r v))"
proof (simp only: sorted_iff_nth_Suc length_map, intro allI impI)
  fix q
  assume q: "Suc q < length (chain gap r v)"
  then have q': "q < length (chain gap r v)" by simp
  have inside: "r + Suc q * gap < length v"
    using q assms(1,2) by (simp only: in_chain_iff)
  have "gap \<le> r + Suc q * gap" by simp
  with assms(3) inside have "f (v ! (r + Suc q * gap - gap)) \<le> f (v ! (r + Suc q * gap))"
    unfolding gapSorted_def by blast
  moreover have "r + Suc q * gap - gap = r + q * gap" by simp
  ultimately have "f (v ! (r + q * gap)) \<le> f (v ! (r + Suc q * gap))" by simp
  then show "map f (chain gap r v) ! q \<le> map f (chain gap r v) ! Suc q"
    using q q' by (simp add: chain_nth)
qed

lemma gapPass_chain_sort:
  assumes "0 < gap" and "r < gap"
  shows "chain gap r (gapPass f gap (length v) v gap) = sort_key f (chain gap r v)"
proof (rule properties_for_sort_key [symmetric])
  let ?w = "gapPass f gap (length v) v gap"
  note ch = gapPass_chains [OF assms(1) refl assms(2), where f = f and v = v and i = gap]
  show "mset (chain gap r ?w) = mset (chain gap r v)"
    using ch by simp
  show "filter (\<lambda>x. f k = f x) (chain gap r ?w) = filter (\<lambda>x. f k = f x) (chain gap r v)" for k
  proof -
    have "(\<lambda>x. f k = f x) = (\<lambda>x. f x = f k)" by auto
    then show ?thesis using ch [where c = "f k"] by simp
  qed
  have "gapSorted f gap gap v"
    by (auto simp add: gapSorted_def)
  from gapPass_orders [OF assms(1) refl this]
  have "gapSorted f gap (max gap (length v)) ?w" .
  then have "gapSorted f gap (length ?w) ?w"
    using ch by (simp add: gapSorted_def)
  with assms show "sorted (map f (chain gap r ?w))"
    by (rule chain_sorted)
qed

lemma nth_via_chain:
  assumes "0 < gap" and "i < length v"
  shows "i div gap < length (chain gap (i mod gap) v)"
    and "v ! i = chain gap (i mod gap) v ! (i div gap)"
proof -
  have r: "i mod gap < gap" using assms(1) by simp
  have "i mod gap + i div gap * gap = i" by simp
  with assms(2) have "i mod gap + i div gap * gap < length v" by simp
  then show len: "i div gap < length (chain gap (i mod gap) v)"
    using assms(1) r by (simp only: in_chain_iff)
  show "v ! i = chain gap (i mod gap) v ! (i div gap)"
    by (simp add: chain_nth [OF len])
qed

lemma gapPass_eq_gapInsertionSort:
  assumes "0 < gap"
  shows "gapPass f gap (length v) v gap = gapInsertionSort f gap v"
proof (rule nth_equalityI)
  let ?w = "gapPass f gap (length v) v gap"
  have len: "length ?w = length v"
    using gapPass_chains [OF assms refl assms, where f = f and v = v and i = gap] by simp
  then show "length ?w = length (gapInsertionSort f gap v)"
    by (simp add: gapInsertionSort_def)
  fix i
  assume "i < length ?w"
  then have i: "i < length v" "i < length ?w" using len by simp_all
  have "?w ! i = chain gap (i mod gap) ?w ! (i div gap)"
    using assms i(2) by (rule nth_via_chain)
  also have "\<dots> = sort_key f (chain gap (i mod gap) v) ! (i div gap)"
    using assms by (simp add: gapPass_chain_sort)
  finally show "?w ! i = gapInsertionSort f gap v ! i"
    using i(1) by (simp add: gapInsertionSort_def)
qed

lemma chain_gapInsertionSort:
  assumes "0 < gap" and "r < gap"
  shows "chain gap r (gapInsertionSort f gap v) = sort_key f (chain gap r v)"
  using gapPass_chain_sort [OF assms, of f v] gapPass_eq_gapInsertionSort [OF assms(1), of f v]
  by simp

lemma gapInsertionSort_1: "gapInsertionSort f 1 v = sort_key f v"
proof -
  have "chain 1 0 v = v"
    by (rule nth_equalityI) (simp_all add: chain_def)
  then have "gapInsertionSort f 1 v = map (\<lambda>i. sort_key f v ! i) [0..<length (sort_key f v)]"
    by (simp add: gapInsertionSort_def)
  then show ?thesis
    by (simp only: map_nth)
qed

lemma mset_gapInsertionSort:
  assumes "0 < gap"
  shows "mset (gapInsertionSort f gap v) = mset v"
  using gapPass_chains [OF assms refl assms, where f = f and v = v and i = gap]
    gapPass_eq_gapInsertionSort [OF assms, of f v]
  by simp

subsection \<open>The loops of the sort and the passes\<close>

lemma list_Item_inside: "i < length xs \<Longrightarrow> list_Item xs (int i) = Inr (xs ! i)"
  by (simp add: list_Item_def)

lemma list_SetItem_inside: "i < length xs \<Longrightarrow> list_SetItem xs (int i) v = Inr (xs[i := v])"
  by (simp add: list_SetItem_def)

lemma shiftLoop_stop:
  "\<not> (0 < gap \<and> gap \<le> j) \<Longrightarrow> shiftLoop d gap tempStr xs j = Inr (xs, j)"
  by (subst shiftLoop.simps) (simp only: if_False)

lemma shiftLoop_unfold:
  assumes "0 < gap \<and> gap \<le> j" and "j < length xs"
    and "dict_Item d (xs ! (j - gap)) = Inr prevStr"
  shows "shiftLoop d gap tempStr xs j =
     (if 0 < wcscmp prevStr tempStr
      then shiftLoop d gap tempStr (xs[j := xs ! (j - gap)]) (j - gap)
      else Inr (xs, j))"
proof -
  have lo: "j - gap < length xs"
    using assms(2) by simp
  show ?thesis
    by (subst shiftLoop.simps)
      (simp only: assms(1) if_True simp_thms list_Item_inside [OF lo] assms(3) sum.case
        list_SetItem_inside [OF assms(2)])
qed

lemma shiftLoop_bubble:
  assumes "j < length xs" and "set xs \<subseteq> fst ` set d" and "t \<in> fst ` set d"
  shows "\<exists>ys j'. shiftLoop d gap (nameOf d t) xs j = Inr (ys, j') \<and> j' < length ys \<and>
           length ys = length xs \<and> set ys \<subseteq> fst ` set d \<and>
           ys[j' := t] = bubble (nm d) gap (xs[j := t]) j"
  using assms
proof (induction j arbitrary: xs rule: less_induct)
  case (less j)
  let ?V = "xs[j := t]"
  have Vj: "?V ! j = t"
    using less.prems(1) by simp
  show ?case
  proof (cases "0 < gap \<and> gap \<le> j")
    case False
    then have "shiftLoop d gap (nameOf d t) xs j = Inr (xs, j)"
      by (rule shiftLoop_stop)
    moreover have "bubble (nm d) gap ?V j = ?V"
      using False by (intro bubble_stop) blast
    ultimately show ?thesis
      using less.prems by simp
  next
    case True
    then have pos: "0 < gap" and gj: "gap \<le> j" by simp_all
    have lo: "j - gap < length xs"
      using less.prems(1) by simp
    have Vlo: "?V ! (j - gap) = xs ! (j - gap)"
      using pos gj by simp
    have "xs ! (j - gap) \<in> fst ` set d"
      using lo less.prems(2) by (auto simp: subset_iff)
    then have ditem: "dict_Item d (xs ! (j - gap)) = Inr (nameOf d (xs ! (j - gap)))"
      by (rule dict_Item_key)
    have test: "0 < wcscmp (nameOf d (xs ! (j - gap))) (nameOf d t)
        \<longleftrightarrow> nm d (?V ! j) < nm d (?V ! (j - gap))"
      by (simp only: wcscmp_pos_iff nm_def Vj Vlo)
    show ?thesis
    proof (cases "nm d (?V ! j) < nm d (?V ! (j - gap))")
      case False
      then have "shiftLoop d gap (nameOf d t) xs j = Inr (xs, j)"
        using test by (simp add: shiftLoop_unfold [OF True less.prems(1) ditem])
      moreover have "bubble (nm d) gap ?V j = ?V"
        using False by (intro bubble_stop) blast
      ultimately show ?thesis
        using less.prems by simp
    next
      case lt: True
      let ?xs' = "xs[j := xs ! (j - gap)]"
      have step: "shiftLoop d gap (nameOf d t) xs j = shiftLoop d gap (nameOf d t) ?xs' (j - gap)"
        using test lt by (simp add: shiftLoop_unfold [OF True less.prems(1) ditem])
      have keys': "set ?xs' \<subseteq> fst ` set d"
        using less.prems(2) \<open>xs ! (j - gap) \<in> fst ` set d\<close> by (intro set_update_subsetI)
      have "j - gap < j" using pos gj by simp
      from less.IH [OF this _ keys' less.prems(3)] lo
      obtain ys j' where r: "shiftLoop d gap (nameOf d t) ?xs' (j - gap) = Inr (ys, j')"
        "j' < length ys" "length ys = length ?xs'" "set ys \<subseteq> fst ` set d"
        "ys[j' := t] = bubble (nm d) gap (?xs'[j - gap := t]) (j - gap)"
        by auto
      have "?V[j := ?V ! (j - gap), j - gap := ?V ! j] = ?xs'[j - gap := t]"
        by (simp only: Vj Vlo list_update_overwrite)
      then have "bubble (nm d) gap ?V j = bubble (nm d) gap (?xs'[j - gap := t]) (j - gap)"
        using bubble_step [of gap j "nm d" ?V] pos gj lt by simp
      with r step show ?thesis
        by simp
    qed
  qed
qed

lemma passLoop_stop: "\<not> i < llen \<Longrightarrow> passLoop d gap llen xs i = Inr xs"
  by (subst passLoop.simps) (simp only: if_False)

lemma passLoop_gapPass:
  assumes "set xs \<subseteq> fst ` set d" and "llen = length xs" and "0 < gap"
  shows "passLoop d gap llen xs i = Inr (gapPass (nm d) gap llen xs i)"
  using assms
proof (induction d gap llen xs i rule: passLoop.induct)
  case (1 d gap llen xs i)
  show ?case
  proof (cases "i < llen")
    case False
    then show ?thesis
      by (simp add: passLoop_stop gapPass_stop)
  next
    case True
    then have ilen: "i < length xs"
      using "1.prems"(2) by simp
    have tkey: "xs ! i \<in> fst ` set d"
      using ilen "1.prems"(1) by (auto simp: subset_iff)
    from shiftLoop_bubble [OF ilen "1.prems"(1) tkey, of gap]
    obtain ys j where r: "shiftLoop d gap (nameOf d (xs ! i)) xs i = Inr (ys, j)"
      "j < length ys" "length ys = length xs" "set ys \<subseteq> fst ` set d"
      "ys[j := xs ! i] = bubble (nm d) gap xs i"
      by auto
    let ?zs = "bubble (nm d) gap xs i"
    have zs: "set ?zs \<subseteq> fst ` set d" "llen = length ?zs"
      using bubble_chains [OF "1.prems"(3) ilen "1.prems"(3), of "nm d"] "1.prems"(1,2)
        mset_eq_setD [of ?zs xs]
      by simp_all
    have "passLoop d gap llen xs i = passLoop d gap llen ?zs (i + 1)"
      by (subst passLoop.simps)
        (simp only: True if_True list_Item_inside [OF ilen] dict_Item_key [OF tkey] r(1)
          list_SetItem_inside [OF r(2)] r(5) sum.case prod.case)
    also have "\<dots> = Inr (gapPass (nm d) gap llen ?zs (i + 1))"
      using "1.IH" [OF True list_Item_inside [OF ilen] dict_Item_key [OF tkey] r(1) refl
          list_SetItem_inside [OF r(2)], unfolded r(5)] zs "1.prems"(3)
      by simp
    finally show ?thesis
      by (simp add: gapPass_step [OF True])
  qed
qed

lemma length_gaps: "length gaps = 8"
  by (simp add: gaps_def)

lemma gaps_positive:
  assumes "gapi < 8"
  shows "0 < gaps ! gapi"
proof -
  have "\<forall>g \<in> set gaps. 0 < g"
    by (simp add: gaps_def)
  moreover have "gaps ! gapi \<in> set gaps"
    using assms by (intro nth_mem) (simp add: length_gaps)
  ultimately show ?thesis by blast
qed

lemma passLoop_gapInsertionSort:
  assumes "set xs \<subseteq> fst ` set d" and "0 < gap"
  shows "passLoop d gap (length xs) xs gap = Inr (gapInsertionSort (nm d) gap xs)"
  using passLoop_gapPass [OF assms(1) refl assms(2)] gapPass_eq_gapInsertionSort [OF assms(2)]
  by simp

lemma gapLoop_passes:
  assumes "set xs \<subseteq> fst ` set d" and "llen = length xs"
  shows "gapLoop d llen xs gapi =
     Inr (foldl (\<lambda>v gap. gapInsertionSort (nm d) gap v) xs (drop gapi gaps))"
  using assms
proof (induction d llen xs gapi rule: gapLoop.induct)
  case (1 d llen xs gapi)
  show ?case
  proof (cases "gapi < 8")
    case False
    then show ?thesis
      by (subst gapLoop.simps) (simp add: length_gaps)
  next
    case True
    let ?gap = "gaps ! gapi"
    let ?ys = "gapInsertionSort (nm d) ?gap xs"
    have pos: "0 < ?gap"
      using True by (rule gaps_positive)
    have pass: "passLoop d ?gap llen xs ?gap = Inr ?ys"
      using passLoop_gapInsertionSort [OF "1.prems"(1) pos] "1.prems"(2) by simp
    have m: "mset ?ys = mset xs"
      using pos by (rule mset_gapInsertionSort)
    have ys: "set ?ys \<subseteq> fst ` set d" "llen = length ?ys"
      using mset_eq_setD [OF m] mset_eq_length [OF m] "1.prems" by simp_all
    have "drop gapi gaps = ?gap # drop (gapi + 1) gaps"
      using True by (simp add: Cons_nth_drop_Suc length_gaps)
    moreover have "gapLoop d llen xs gapi = gapLoop d llen ?ys (gapi + 1)"
      by (subst gapLoop.simps) (simp only: True if_True pass sum.case)
    ultimately show ?thesis
      using "1.IH" [OF True pass ys] by simp
  qed
qed

lemma dict_Map_Add_keys: "dict_Map_Add d acc = acc @ map fst d"
  unfolding dict_Map_Add_def by (induction d arbitrary: acc) simp_all

lemma SortDict_specSort:
  "SortDictIntoListOnNames d [] = Inr (specSort (nm d) (map fst d))"
proof -
  have "set (map fst d) \<subseteq> fst ` set d" by simp
  from gapLoop_passes [OF this refl, of 0]
  show ?thesis
    by (simp add: SortDictIntoListOnNames_def dict_Map_Add_keys specSort_def gaps_def)
qed

lemma specSort_split:
  "specSort f xs = sort_key f (foldl (\<lambda>v gap. gapInsertionSort f gap v) xs [701, 301, 132, 57, 23, 10, 4])"
  using gapInsertionSort_1 [of f] by (simp add: specSort_def)

lemma mset_specSort: "mset (specSort f xs) = mset xs"
  by (simp add: specSort_def mset_gapInsertionSort)

subsection \<open>The sort\<close>

text \<open>
  Claim C4. Started on an empty list, \<^verbatim>\<open>SortDictIntoListOnNames\<close> returns what the
  specification's sort returns on the keys in the order in which the dictionary hands
  them out: the passes for the gaps 701, 301, 132, 57, 23, 10, 4, 1, in that order, each
  of them the insertion sort of every chain of elements \<open>gap\<close> apart. The order of the
  sort is the order of \<^verbatim>\<open>wcscmp\<close> on the assigned names. The code does this with
  updates of the one list it is given.
\<close>

theorem SortDict_gap_sequence:
  "SortDictIntoListOnNames d [] = Inr (specSort (nm d) (map fst d)) \<and>
   (nm d a \<le> nm d b) = (wcscmp (nameOf d a) (nameOf d b) \<le> 0)"
  by (simp add: SortDict_specSort wcscmp_le_0_iff nm_def)

text \<open>
  Eleven entities in decreasing order of their names: the passes for the gaps 10, 4
  and 1 move them.
\<close>

theorem SortDict_gap_sequence_witness:
  "SortDictIntoListOnNames
     [(0::nat, [112::char16]), (1, [111]), (2, [110]), (3, [109]), (4, [108]), (5, [107]),
      (6, [106]), (7, [105]), (8, [104]), (9, [103]), (10, [102])] []
     = Inr [10, 9, 8, 7, 6, 5, 4, 3, 2, 1, 0] \<and>
   specSort (nm [(0::nat, [112::char16]), (1, [111]), (2, [110]), (3, [109]), (4, [108]), (5, [107]),
      (6, [106]), (7, [105]), (8, [104]), (9, [103]), (10, [102])])
     (map fst [(0::nat, [112::char16]), (1, [111]), (2, [110]), (3, [109]), (4, [108]), (5, [107]),
      (6, [106]), (7, [105]), (8, [104]), (9, [103]), (10, [102])])
     = [10, 9, 8, 7, 6, 5, 4, 3, 2, 1, 0]"
proof -
  let ?d = "[(0::nat, [112::char16]), (1, [111]), (2, [110]), (3, [109]), (4, [108]), (5, [107]),
      (6, [106]), (7, [105]), (8, [104]), (9, [103]), (10, [102])]"
  have run: "SortDictIntoListOnNames ?d [] = Inr [10, 9, 8, 7, 6, 5, 4, 3, 2, 1, 0]"
    by code_simp
  from SortDict_gap_sequence [of ?d 0 1]
  have "SortDictIntoListOnNames ?d [] = Inr (specSort (nm ?d) (map fst ?d))"
    by (rule conjunct1)
  with run have "specSort (nm ?d) (map fst ?d) = [10, 9, 8, 7, 6, 5, 4, 3, 2, 1, 0]"
    by (simp only: sum.inject)
  with run show ?thesis
    by (simp only: simp_thms)
qed

text \<open>
  Claim C1. For every dictionary, with no entry or with any number of entries, and with
  distinct names or not, \<^verbatim>\<open>SortDictIntoListOnNames\<close> started on an empty list returns
  a list in non-decreasing \<^verbatim>\<open>wcscmp\<close> order of the names the dictionary assigns.
\<close>

theorem SortDict_sorted:
  "\<exists>ys. SortDictIntoListOnNames d [] = Inr ys \<and> sortedOnNames d ys"
  by (simp add: SortDict_specSort sortedOnNames_iff specSort_split)

text \<open>
  The dictionary with no entry, and four entities of which one name ends at a NUL inside
  its buffer and one continues after a prefix equal to another name.
\<close>

theorem SortDict_sorted_witness:
  "SortDictIntoListOnNames ([] :: nat NameDict) [] = Inr [] \<and>
   SortDictIntoListOnNames [(1::nat, [99, 0]), (2, [97]), (3, [98]), (4, [97, 1])] []
     = Inr [2, 4, 3, 1] \<and>
   sortedOnNames [(1::nat, [99, 0]), (2, [97]), (3, [98]), (4, [97, 1])] [2, 4, 3, 1]"
proof -
  let ?d = "[(1::nat, [99, 0::char16]), (2, [97]), (3, [98]), (4, [97, 1])]"
  have none: "SortDictIntoListOnNames ([] :: nat NameDict) [] = Inr []"
    by code_simp
  have run: "SortDictIntoListOnNames ?d [] = Inr [2, 4, 3, 1]"
    by code_simp
  with SortDict_sorted [of ?d] none show ?thesis
    by simp
qed

text \<open>
  Claim C9. For a dictionary (every key in one entry), the list that
  \<^verbatim>\<open>SortDictIntoListOnNames\<close> returns is a permutation of the keys: it has the keys
  of the dictionary and nothing else, each of them once.
\<close>

theorem SortDict_permutation:
  assumes "distinct (map fst d)"
  shows "\<exists>ys. SortDictIntoListOnNames d [] = Inr ys \<and> mset ys = mset (map fst d) \<and>
           distinct ys \<and> set ys = fst ` set d \<and> length ys = length d"
proof -
  let ?ys = "specSort (nm d) (map fst d)"
  have m: "mset ?ys = mset (map fst d)"
    by (rule mset_specSort)
  have "distinct ?ys"
    using assms mset_eq_imp_distinct_iff [OF m] by simp
  moreover have "set ?ys = fst ` set d" "length ?ys = length d"
    using mset_eq_setD [OF m] mset_eq_length [OF m] by simp_all
  ultimately show ?thesis
    using m by (simp add: SortDict_specSort)
qed

text \<open>A dictionary of three entities.\<close>

theorem SortDict_permutation_witness:
  "\<exists>ys. SortDictIntoListOnNames [(1::nat, [99]), (2, [97]), (3, [98])] [] = Inr ys \<and>
     mset ys = mset (map fst [(1::nat, [99::char16]), (2, [97]), (3, [98])]) \<and> distinct ys \<and>
     set ys = fst ` set [(1::nat, [99::char16]), (2, [97]), (3, [98])] \<and>
     length ys = length [(1::nat, [99::char16]), (2, [97]), (3, [98])]"
proof -
  have "distinct (map fst [(1::nat, [99::char16]), (2, [97]), (3, [98])])"
    by simp
  then show ?thesis
    by (rule SortDict_permutation)
qed

subsection \<open>Paths and entities\<close>





subsection \<open>The registry of contexts\<close>

lemma newThreadContextTTD_simps [simp]:
  "m_contextList newThreadContextTTD = []"
  "m_ttdContextToExternalRefMap newThreadContextTTD = Map.empty"
  by (simp_all add: newThreadContextTTD_def)

lemma registerInOrder_run:
  assumes "dom (m_ttdContextToExternalRefMap st) = set (m_contextList st)"
    and "distinct (map snd regs)" and "set (map snd regs) \<inter> set (m_contextList st) = {}"
    and "length (m_contextList st) \<le> MAX_CONTEXT_COUNT"
  shows "fst (registerInOrder regs st) =
           replicate (min (length regs) (MAX_CONTEXT_COUNT - length (m_contextList st))) None @
           replicate (length regs - (MAX_CONTEXT_COUNT - length (m_contextList st)))
             (Some CapacityExceeded) \<and>
         m_contextList (snd (registerInOrder regs st)) =
           m_contextList st @ take (MAX_CONTEXT_COUNT - length (m_contextList st)) (map snd regs)"
  using assms
proof (induction regs arbitrary: st)
  case Nil
  then show ?case by simp
next
  case (Cons reg regs)
  obtain externalCtx ctx where reg: "reg = (externalCtx, ctx)"
    by (cases reg)
  have new: "ctx \<notin> dom (m_ttdContextToExternalRefMap st)"
    using Cons.prems(1,3) reg by auto
  show ?case
  proof (cases "length (m_contextList st) < MAX_CONTEXT_COUNT")
    case True
    let ?st = "st\<lparr> m_contextList := m_contextList st @ [ctx],
                   m_ttdContextToExternalRefMap :=
                     (m_ttdContextToExternalRefMap st)(ctx \<mapsto> externalCtx) \<rparr>"
    have add: "AddNewScriptContextRecord externalCtx ctx st = (None, ?st)"
      using new True by (simp add: AddNewScriptContextRecord_def)
    have pre: "dom (m_ttdContextToExternalRefMap ?st) = set (m_contextList ?st)"
      "distinct (map snd regs)" "set (map snd regs) \<inter> set (m_contextList ?st) = {}"
      "length (m_contextList ?st) \<le> MAX_CONTEXT_COUNT"
      using Cons.prems True reg by auto
    obtain c where c: "MAX_CONTEXT_COUNT - length (m_contextList st) = Suc c"
      "MAX_CONTEXT_COUNT - Suc (length (m_contextList st)) = c"
      using True by (cases "MAX_CONTEXT_COUNT - length (m_contextList st)") auto
    obtain rs st'' where run: "registerInOrder regs ?st = (rs, st'')"
      by (cases "registerInOrder regs ?st")
    from Cons.IH [OF pre] have "rs = replicate (min (length regs) c) None @
        replicate (length regs - c) (Some CapacityExceeded)"
      "m_contextList st'' = m_contextList ?st @ take c (map snd regs)"
      by (simp_all add: run c(2))
    then show ?thesis
      by (simp add: reg add run c(1))
  next
    case False
    then have full: "length (m_contextList st) = MAX_CONTEXT_COUNT"
      using Cons.prems(4) by simp
    have add: "AddNewScriptContextRecord externalCtx ctx st = (Some CapacityExceeded, st)"
      using new full by (simp add: AddNewScriptContextRecord_def)
    have "dom (m_ttdContextToExternalRefMap st) = set (m_contextList st)"
      "distinct (map snd regs)" "set (map snd regs) \<inter> set (m_contextList st) = {}"
      "length (m_contextList st) \<le> MAX_CONTEXT_COUNT"
      using Cons.prems by auto
    from Cons.IH [OF this] full show ?thesis
      by (auto simp add: reg add split: prod.splits)
  qed
qed

text \<open>
  Claim C5. Registering a context that is not tracked succeeds while fewer than 32
  contexts are live, and adds it to the list; with 32 live contexts it fails with the
  capacity error and leaves the registry, hence the live count, as it was. Starting
  from a new registry, registrations of distinct contexts succeed up to the 32nd and
  fail from the 33rd on, and the live count ends at 32.
\<close>

theorem register_capacity:
  fixes st :: "('ctx, 'ext, 'obj) ThreadContextTTD"
  defines "fresh \<equiv> newThreadContextTTD :: ('ctx, 'ext, 'obj) ThreadContextTTD"
  shows "(ctx \<notin> dom (m_ttdContextToExternalRefMap st) \<and> length (m_contextList st) < MAX_CONTEXT_COUNT
      \<longrightarrow> fst (AddNewScriptContextRecord externalCtx ctx st) = None \<and>
          m_contextList (snd (AddNewScriptContextRecord externalCtx ctx st))
            = m_contextList st @ [ctx]) \<and>
   (ctx \<notin> dom (m_ttdContextToExternalRefMap st) \<and> MAX_CONTEXT_COUNT \<le> length (m_contextList st)
      \<longrightarrow> AddNewScriptContextRecord externalCtx ctx st = (Some CapacityExceeded, st)) \<and>
   (distinct (map snd regs) \<longrightarrow>
      fst (registerInOrder regs fresh) =
        replicate (min (length regs) 32) None @
        replicate (length regs - 32) (Some CapacityExceeded) \<and>
      length (m_contextList (snd (registerInOrder regs fresh))) = min (length regs) 32)"
proof (intro conjI impI)
  assume "distinct (map snd regs)"
  then have run: "fst (registerInOrder regs fresh) =
        replicate (min (length regs) 32) None @
        replicate (length regs - 32) (Some CapacityExceeded) \<and>
      m_contextList (snd (registerInOrder regs fresh)) = take 32 (map snd regs)"
    using registerInOrder_run [of fresh regs]
    by (simp add: MAX_CONTEXT_COUNT_def fresh_def)
  then show "fst (registerInOrder regs fresh) =
        replicate (min (length regs) 32) None @
        replicate (length regs - 32) (Some CapacityExceeded)"
    by simp
  from run show "length (m_contextList (snd (registerInOrder regs fresh)))
        = min (length regs) 32"
    by (simp add: min.commute)
qed (simp_all add: AddNewScriptContextRecord_def)

text \<open>Thirty-three registrations on a new registry.\<close>

theorem register_capacity_witness:
  "fst (registerInOrder (map (\<lambda>i. (i, i)) [0..<33])
          (newThreadContextTTD :: (nat, nat, nat) ThreadContextTTD))
     = replicate 32 None @ [Some CapacityExceeded] \<and>
   length (m_contextList (snd (registerInOrder (map (\<lambda>i. (i, i)) [0..<33])
          (newThreadContextTTD :: (nat, nat, nat) ThreadContextTTD)))) = 32"
proof -
  have "distinct (map snd (map (\<lambda>i. (i, i)) [0..<33::nat]))"
    by (simp add: comp_def)
  with register_capacity [of 0 "newThreadContextTTD :: (nat, nat, nat) ThreadContextTTD" 0
      "map (\<lambda>i. (i, i)) [0..<33::nat]"]
  show ?thesis by simp
qed

text \<open>
  Claim C8. \<^verbatim>\<open>NotifyCtxDestroyInRecord\<close> on a context that is not in the map of
  tracked contexts returns the registry unchanged. In every case it takes the context
  out of the map and changes no field but the map and the list of contexts, and a
  second call changes nothing more.
\<close>

theorem notify_destroy_untracked:
  "(ctx \<notin> dom (m_ttdContextToExternalRefMap st) \<longrightarrow> NotifyCtxDestroyInRecord ctx st = st) \<and>
   m_ttdContextToExternalRefMap (NotifyCtxDestroyInRecord ctx st)
     = (m_ttdContextToExternalRefMap st)(ctx := None) \<and>
   m_contextCreatedOrDestoyedInReplay (NotifyCtxDestroyInRecord ctx st)
     = m_contextCreatedOrDestoyedInReplay st \<and>
   m_activeContext (NotifyCtxDestroyInRecord ctx st) = m_activeContext st \<and>
   m_deadScriptRecordList (NotifyCtxDestroyInRecord ctx st) = m_deadScriptRecordList st \<and>
   m_ttdRootSet (NotifyCtxDestroyInRecord ctx st) = m_ttdRootSet st \<and>
   m_ttdLocalRootSet (NotifyCtxDestroyInRecord ctx st) = m_ttdLocalRootSet st \<and>
   m_ttdRootTagIdMap (NotifyCtxDestroyInRecord ctx st) = m_ttdRootTagIdMap st \<and>
   NotifyCtxDestroyInRecord ctx (NotifyCtxDestroyInRecord ctx st) = NotifyCtxDestroyInRecord ctx st"
  by (auto simp add: NotifyCtxDestroyInRecord_def fun_eq_iff domIff)

text \<open>A registry that tracks the context 1, notified about the context 2.\<close>

theorem notify_destroy_untracked_witness:
  "NotifyCtxDestroyInRecord (2::nat)
     (snd (AddNewScriptContextRecord (10::nat) 1 (newThreadContextTTD :: (nat, nat, nat) ThreadContextTTD)))
   = snd (AddNewScriptContextRecord 10 1 newThreadContextTTD)"
proof -
  let ?st = "snd (AddNewScriptContextRecord (10::nat) (1::nat)
     (newThreadContextTTD :: (nat, nat, nat) ThreadContextTTD))"
  have "2 \<notin> dom (m_ttdContextToExternalRefMap ?st)"
    by (simp add: AddNewScriptContextRecord_def MAX_CONTEXT_COUNT_def)
  with notify_destroy_untracked [of 2 ?st] show ?thesis
    by blast
qed

subsection \<open>The queue of pending modifications\<close>

lemma enqueueAll_list:
  "m_ttdPendingAsyncModList (enqueueAll ms st) =
     m_ttdPendingAsyncModList st @
     map (\<lambda>(trgt, index). \<lparr> ArrayBufferVar = trgt, Index = index \<rparr>) ms"
  by (induction ms st rule: enqueueAll.induct) (simp_all add: AddToAsyncPendingList_def)

lemma drain_front:
  "length finalModPositions \<le> length (m_ttdPendingAsyncModList st) \<Longrightarrow>
   fst (drain finalModPositions st)
     = map Some (take (length finalModPositions) (m_ttdPendingAsyncModList st)) \<and>
   m_ttdPendingAsyncModList (snd (drain finalModPositions st))
     = drop (length finalModPositions) (m_ttdPendingAsyncModList st)"
proof (induction finalModPositions arbitrary: st)
  case Nil
  then show ?case by simp
next
  case (Cons p ps)
  then obtain m rest where q: "m_ttdPendingAsyncModList st = m # rest"
    by (cases "m_ttdPendingAsyncModList st") auto
  let ?st = "st\<lparr> m_ttdPendingAsyncModList := rest \<rparr>"
  have get: "GetFromAsyncPendingList p st = (Some m, ?st)"
    by (simp add: GetFromAsyncPendingList_def q)
  have "length ps \<le> length (m_ttdPendingAsyncModList ?st)"
    using Cons.prems q by simp
  from Cons.IH [OF this] show ?case
    by (auto simp add: get q split: prod.splits)
qed

text \<open>
  Claim C6. \<^verbatim>\<open>AddToAsyncPendingList\<close> puts every modification behind the ones that
  are pending, equal ones included. Draining an initially empty queue after a sequence
  of additions gives the modifications in the order of the additions, whatever the
  locations passed to \<^verbatim>\<open>GetFromAsyncPendingList\<close>, and leaves the queue empty.
\<close>

theorem async_pending_fifo:
  "m_ttdPendingAsyncModList (enqueueAll ms st) =
     m_ttdPendingAsyncModList st @
     map (\<lambda>(trgt, index). \<lparr> ArrayBufferVar = trgt, Index = index \<rparr>) ms \<and>
   (m_ttdPendingAsyncModList st = [] \<and> length finalModPositions = length ms \<longrightarrow>
      fst (drain finalModPositions (enqueueAll ms st))
        = map (\<lambda>(trgt, index). Some \<lparr> ArrayBufferVar = trgt, Index = index \<rparr>) ms \<and>
      m_ttdPendingAsyncModList (snd (drain finalModPositions (enqueueAll ms st))) = [])"
proof (intro conjI impI)
  show "m_ttdPendingAsyncModList (enqueueAll ms st) =
     m_ttdPendingAsyncModList st @
     map (\<lambda>(trgt, index). \<lparr> ArrayBufferVar = trgt, Index = index \<rparr>) ms"
    by (rule enqueueAll_list)
next
  assume a: "m_ttdPendingAsyncModList st = [] \<and> length finalModPositions = length ms"
  then have "length finalModPositions \<le> length (m_ttdPendingAsyncModList (enqueueAll ms st))"
    by (simp add: enqueueAll_list)
  from drain_front [OF this] a
  show "fst (drain finalModPositions (enqueueAll ms st))
        = map (\<lambda>(trgt, index). Some \<lparr> ArrayBufferVar = trgt, Index = index \<rparr>) ms"
    and "m_ttdPendingAsyncModList (snd (drain finalModPositions (enqueueAll ms st))) = []"
    by (simp_all add: enqueueAll_list split_def comp_def)
qed

text \<open>M1 (buffer A, index 3) and then M2 (buffer B, index 0).\<close>

theorem async_pending_fifo_witness:
  "fst (drain [40, 7] (enqueueAll [(CHR ''A'', 3), (CHR ''B'', 0)]
         \<lparr> m_ttdPendingAsyncModList = [] \<rparr>))
     = [Some \<lparr> ArrayBufferVar = CHR ''A'', Index = 3 \<rparr>,
        Some \<lparr> ArrayBufferVar = CHR ''B'', Index = 0 \<rparr>]"
  using async_pending_fifo [of "[(CHR ''A'', 3), (CHR ''B'', 0)]"
      "\<lparr> m_ttdPendingAsyncModList = [] \<rparr>" "[40, 7]"]
  by simp

end
